theory Spec2Isabelle
  imports Main "HOL-Library.Word"
begin

section \<open>The cryptographic envelope of filecrypt (package crypto)\<close>

text \<open>
  The development embeds \<^verbatim>\<open>crypto/crypto.go\<close>: \<^verbatim>\<open>Zero\<close>, \<^verbatim>\<open>randBytes\<close>,
  \<^verbatim>\<open>generateNonce\<close>, \<^verbatim>\<open>encrypt\<close>, \<^verbatim>\<open>decrypt\<close>, \<^verbatim>\<open>deriveKey\<close>, \<^verbatim>\<open>Seal\<close> and
  \<^verbatim>\<open>Open\<close>. Go slices alias their backing arrays, and \<^verbatim>\<open>Zero\<close> writes through a
  slice, so memory is an explicit store of byte buffers and every function passes the
  program state along.
\<close>

subsection \<open>Bytes, buffers, slices\<close>

type_synonym byte = "8 word"

text \<open>
  The error values. \<^verbatim>\<open>ErrEncrypt\<close> and \<^verbatim>\<open>ErrDecrypt\<close> are the package's two
  exported errors. \<open>ErrRandom\<close> stands for whatever error \<^verbatim>\<open>rand.Read\<close> reports,
  \<open>ErrScrypt\<close> for the error of \<^verbatim>\<open>scrypt.Key\<close>, and \<open>Panic\<close> for a run-time
  panic of a slice expression whose bounds are out of range.
\<close>

datatype error = ErrEncrypt | ErrDecrypt | ErrRandom | ErrScrypt | Panic

text \<open>
  Backing arrays. A \<open>Caller n\<close> array belongs to the caller (the passphrase, the
  message). Every other name is one allocation site of the package: \<open>SaltBuf\<close> is
  \<^verbatim>\<open>make([]byte, size)\<close> in \<^verbatim>\<open>randBytes\<close>, \<open>NonceBuf\<close> the nonce array of
  \<^verbatim>\<open>generateNonce\<close> and of \<^verbatim>\<open>decrypt\<close>, \<open>OutBuf\<close> the \<^verbatim>\<open>make\<close> of
  \<^verbatim>\<open>encrypt\<close>, \<open>BoxBuf\<close> the array \<^verbatim>\<open>secretbox.Seal\<close> returns, \<open>ScryptBuf\<close> the
  slice \<^verbatim>\<open>scrypt.Key\<close> returns, \<open>NaclKey\<close> the \<^verbatim>\<open>new([keySize]byte)\<close> of
  \<^verbatim>\<open>deriveKey\<close>, \<open>EnvBuf\<close> the result of \<^verbatim>\<open>append(salt, out...)\<close> in \<^verbatim>\<open>Seal\<close>,
  \<open>PlainBuf\<close> the slice \<^verbatim>\<open>secretbox.Open\<close> returns. \<open>NoBuf\<close> is never allocated:
  it is the base of the nil slice.
\<close>

datatype buf =
  Caller nat | SaltBuf | NonceBuf | OutBuf | BoxBuf | ScryptBuf | NaclKey | EnvBuf
| PlainBuf | NoBuf

record slice =
  base :: buf
  off :: nat
  len :: nat

text \<open>Calls into the packages outside the repository, logged in call order.\<close>

datatype call =
  CallRandRead nat
| CallScryptKey "byte list" "byte list" int
| CallBoxSeal
| CallBoxOpen

text \<open>
  The program state: the store, the bytes \<^verbatim>\<open>rand.Reader\<close> will still deliver
  (the reader fails when they run out, as the \<^verbatim>\<open>bytes.Buffer\<close> which the package's
  test installs as \<^verbatim>\<open>rand.Reader\<close> does), the package variable \<^verbatim>\<open>Iterations\<close>,
  and the log of external calls.
\<close>

record state =
  store :: "buf \<Rightarrow> byte list option"
  Reader :: "byte list"
  Iterations :: int
  calls :: "call list"

text \<open>
  The functions of \<^verbatim>\<open>golang.org/x/crypto/scrypt\<close> and \<^verbatim>\<open>nacl/secretbox\<close> are not
  part of the repository; they are parameters of the model. \<open>scrypt_Key\<close> is
  \<^verbatim>\<open>scrypt.Key(password, salt, N, r, p, keyLen)\<close>. \<open>box_seal message nonce key\<close> is
  the box that \<^verbatim>\<open>secretbox.Seal\<close> appends to its first argument, and
  \<open>box_open box nonce key\<close> the message \<^verbatim>\<open>secretbox.Open\<close> recovers, \<open>None\<close> when
  it reports \<^verbatim>\<open>ok = false\<close>.
\<close>

record lib =
  scrypt_Key :: "byte list \<Rightarrow> byte list \<Rightarrow> int \<Rightarrow> int \<Rightarrow> int \<Rightarrow> nat \<Rightarrow> error + byte list"
  box_seal :: "byte list \<Rightarrow> byte list \<Rightarrow> byte list \<Rightarrow> byte list"
  box_open :: "byte list \<Rightarrow> byte list \<Rightarrow> byte list \<Rightarrow> byte list option"

subsection \<open>Constants\<close>

definition keySize :: nat where
  "keySize = 32"

definition nonceSize :: nat where
  "nonceSize = 24"

definition saltSize :: nat where
  "saltSize = 32"

text \<open>
  Modelled from the spec: \<^verbatim>\<open>secretbox.Overhead\<close> is a constant of the secretbox
  package, which is not in the repository. The specification names it, the size of the
  authentication tag, without giving a number; the value here is the one the package
  defines (the Poly1305 tag, 16 bytes), with which \<open>overhead\<close> is 72.
\<close>

definition secretbox_Overhead :: nat where
  "secretbox_Overhead = 16"

definition IterationsHigh :: int where
  "IterationsHigh = 1048576"

definition IterationsLow :: int where
  "IterationsLow = 32768"

definition overhead :: nat where
  "overhead = saltSize + secretbox_Overhead + nonceSize"

subsection \<open>Memory operations of the language\<close>

text \<open>The bytes a slice denotes.\<close>

definition load :: "state \<Rightarrow> slice \<Rightarrow> byte list" where
  "load s sl =
     (case store s (base sl) of
        None \<Rightarrow> []
      | Some bs \<Rightarrow> take (len sl) (drop (off sl) bs))"

text \<open>
  A slice lies inside its backing array; a slice without a backing array (the nil
  slice) is empty.
\<close>

definition in_bounds :: "state \<Rightarrow> slice \<Rightarrow> bool" where
  "in_bounds s sl =
     (case store s (base sl) of
        None \<Rightarrow> len sl = 0
      | Some bs \<Rightarrow> off sl + len sl \<le> length bs)"

text \<open>The nil slice: no backing array, length 0.\<close>

definition nil :: slice where
  "nil = \<lparr>base = NoBuf, off = 0, len = 0\<rparr>"

text \<open>\<^verbatim>\<open>make([]byte, n)\<close> and \<^verbatim>\<open>new([n]byte)\<close> at allocation site \<open>b\<close>: n zero bytes.\<close>

definition make :: "buf \<Rightarrow> nat \<Rightarrow> state \<Rightarrow> slice \<times> state" where
  "make b n s =
     (\<lparr>base = b, off = 0, len = n\<rparr>, s\<lparr>store := (store s)(b \<mapsto> replicate n 0)\<rparr>)"

text \<open>
  The slice expression \<^verbatim>\<open>sl[lo:hi]\<close>. Go panics when the bounds are out of range;
  the model checks them against the length of the slice.
\<close>

definition reslice :: "slice \<Rightarrow> nat \<Rightarrow> nat \<Rightarrow> error + slice" where
  "reslice sl lo hi =
     (if lo \<le> hi \<and> hi \<le> len sl
      then Inr \<lparr>base = base sl, off = off sl + lo, len = hi - lo\<rparr>
      else Inl Panic)"

text \<open>The assignment \<^verbatim>\<open>sl[i] = v\<close>, for an index below the length of the slice.\<close>

definition poke :: "slice \<Rightarrow> nat \<Rightarrow> byte \<Rightarrow> state \<Rightarrow> state" where
  "poke sl i v s =
     (case store s (base sl) of
        None \<Rightarrow> s
      | Some bs \<Rightarrow> s\<lparr>store := (store s)(base sl \<mapsto> bs[off sl + i := v])\<rparr>)"

text \<open>Writing \<open>bs\<close> to the front of a slice, at most as many bytes as the slice has.\<close>

definition store_at :: "slice \<Rightarrow> byte list \<Rightarrow> state \<Rightarrow> state" where
  "store_at dst bs s =
     (let n = min (len dst) (length bs) in
      case store s (base dst) of
        None \<Rightarrow> s
      | Some old \<Rightarrow>
          s\<lparr>store := (store s)(base dst \<mapsto> take (off dst) old @ take n bs @ drop (off dst + n) old)\<rparr>)"

text \<open>The builtin \<^verbatim>\<open>copy(dst, src)\<close>: the shorter of the two lengths is copied.\<close>

definition copy :: "slice \<Rightarrow> slice \<Rightarrow> state \<Rightarrow> state" where
  "copy dst src s = store_at dst (load s src) s"

text \<open>
  The builtin \<^verbatim>\<open>append(a, b...)\<close> as \<^verbatim>\<open>Seal\<close> uses it: \<open>a\<close> is the salt, whose
  capacity equals its length, so the result is a new array holding both.
\<close>

definition append_slice :: "slice \<Rightarrow> slice \<Rightarrow> state \<Rightarrow> slice \<times> state" where
  "append_slice a b s =
     (let bs = load s a @ load s b in
      (\<lparr>base = EnvBuf, off = 0, len = length bs\<rparr>, s\<lparr>store := (store s)(EnvBuf \<mapsto> bs)\<rparr>))"

subsection \<open>Calls into the external packages\<close>

text \<open>
  \<^verbatim>\<open>rand.Read(b)\<close>: fills \<open>b\<close> from the reader; the error is nil exactly when the
  whole of \<open>b\<close> was filled.
\<close>

definition rand_Read :: "slice \<Rightarrow> state \<Rightarrow> (nat \<times> error option) \<times> state" where
  "rand_Read b s =
     (let got = take (len b) (Reader s);
          s' = (store_at b got s)\<lparr>Reader := drop (len b) (Reader s),
                                   calls := calls s @ [CallRandRead (len b)]\<rparr>
      in ((length got, if length got < len b then Some ErrRandom else None), s'))"

text \<open>
  \<^verbatim>\<open>scrypt.Key\<close>: reads the passphrase and the salt, returns a new slice, or the nil
  slice and an error.
\<close>

definition scrypt_Key_call ::
  "lib \<Rightarrow> slice \<Rightarrow> slice \<Rightarrow> int \<Rightarrow> int \<Rightarrow> int \<Rightarrow> nat \<Rightarrow> state \<Rightarrow> (slice \<times> error option) \<times> state" where
  "scrypt_Key_call L pass salt N r p keyLen s =
     (let s' = s\<lparr>calls := calls s @ [CallScryptKey (load s pass) (load s salt) N]\<rparr> in
      case scrypt_Key L (load s pass) (load s salt) N r p keyLen of
        Inl e \<Rightarrow> ((nil, Some e), s')
      | Inr k \<Rightarrow>
          ((\<lparr>base = ScryptBuf, off = 0, len = length k\<rparr>, None),
           s'\<lparr>store := (store s')(ScryptBuf \<mapsto> k)\<rparr>))"

text \<open>
  \<^verbatim>\<open>secretbox.Seal(out, message, nonce, key)\<close>: appends the box to \<open>out\<close> and
  returns the grown slice. \<^verbatim>\<open>encrypt\<close> passes an \<open>out\<close> without spare capacity,
  so the result is a new array.
\<close>

definition secretbox_Seal ::
  "lib \<Rightarrow> slice \<Rightarrow> slice \<Rightarrow> slice \<Rightarrow> slice \<Rightarrow> state \<Rightarrow> slice \<times> state" where
  "secretbox_Seal L out message nonce key s =
     (let bs = load s out @ box_seal L (load s message) (load s nonce) (load s key) in
      (\<lparr>base = BoxBuf, off = 0, len = length bs\<rparr>,
       s\<lparr>store := (store s)(BoxBuf \<mapsto> bs), calls := calls s @ [CallBoxSeal]\<rparr>))"

text \<open>
  \<^verbatim>\<open>secretbox.Open(nil, box, nonce, key)\<close>: the first argument is nil at the only
  call, so the message is returned in a new array.
\<close>

definition secretbox_Open ::
  "lib \<Rightarrow> slice \<Rightarrow> slice \<Rightarrow> slice \<Rightarrow> state \<Rightarrow> (slice \<times> bool) \<times> state" where
  "secretbox_Open L box nonce key s =
     (let s' = s\<lparr>calls := calls s @ [CallBoxOpen]\<rparr> in
      case box_open L (load s box) (load s nonce) (load s key) of
        None \<Rightarrow> ((nil, False), s')
      | Some m \<Rightarrow>
          ((\<lparr>base = PlainBuf, off = 0, len = length m\<rparr>, True),
           s'\<lparr>store := (store s')(PlainBuf \<mapsto> m)\<rparr>))"

subsection \<open>The functions of the package\<close>

text \<open>
  \<^verbatim>\<open>Zero\<close>: the loop \<^verbatim>\<open>for i := 0; i < len(in); i++ { in[i] = 0 }\<close>. The index is
  below the length at every assignment, so the assignment cannot panic.
\<close>

function Zero_loop :: "nat \<Rightarrow> slice \<Rightarrow> state \<Rightarrow> state" where
  "Zero_loop i inp s = (if i < len inp then Zero_loop (i + 1) inp (poke inp i 0 s) else s)"
  by pat_completeness auto
termination
  by (relation "measure (\<lambda>(i, inp, s). len inp - i)") auto

declare Zero_loop.simps [simp del]

definition Zero :: "slice \<Rightarrow> state \<Rightarrow> state" where
  "Zero inp s = Zero_loop 0 inp s"

definition randBytes :: "nat \<Rightarrow> state \<Rightarrow> (slice \<times> error option) \<times> state" where
  "randBytes sz s =
     (let (r, s1) = make SaltBuf sz s;
          ((n, err), s2) = rand_Read r s1
      in ((r, err), s2))"

definition generateNonce :: "state \<Rightarrow> (error + slice) \<times> state" where
  "generateNonce s =
     (let (nonce, s1) = make NonceBuf nonceSize s;
          ((n, err), s2) = rand_Read nonce s1
      in case err of
           Some e \<Rightarrow> (Inl e, s2)
         | None \<Rightarrow> (Inr nonce, s2))"

definition encrypt :: "lib \<Rightarrow> slice \<Rightarrow> slice \<Rightarrow> state \<Rightarrow> (error + slice) \<times> state" where
  "encrypt L key message s =
     (case generateNonce s of
        (Inl e, s1) \<Rightarrow> (Inl ErrEncrypt, s1)
      | (Inr nonce, s1) \<Rightarrow>
          (let (out, s2) = make OutBuf (len nonce) s1;
               s3 = copy out nonce s2;
               (out', s4) = secretbox_Seal L out message nonce key s3
           in (Inr out', s4)))"

definition decrypt :: "lib \<Rightarrow> slice \<Rightarrow> slice \<Rightarrow> state \<Rightarrow> (error + slice) \<times> state" where
  "decrypt L key message s =
     (if len message < nonceSize + secretbox_Overhead then (Inl ErrDecrypt, s)
      else
        (let (nonce, s1) = make NonceBuf nonceSize s in
         case reslice message 0 nonceSize of
           Inl e \<Rightarrow> (Inl e, s1)
         | Inr front \<Rightarrow>
             (let s2 = copy nonce front s1 in
              case reslice message nonceSize (len message) of
                Inl e \<Rightarrow> (Inl e, s2)
              | Inr box \<Rightarrow>
                  (let ((out, ok), s3) = secretbox_Open L box nonce key s2 in
                   if \<not> ok then (Inl ErrDecrypt, s3) else (Inr out, s3)))))"

definition deriveKey :: "lib \<Rightarrow> slice \<Rightarrow> slice \<Rightarrow> state \<Rightarrow> slice \<times> state" where
  "deriveKey L pass salt s =
     (let (naclKey, s1) = make NaclKey keySize s;
          ((key, err), s2) = scrypt_Key_call L pass salt (Iterations s1) 8 1 keySize s1;
          s3 = copy naclKey key s2;
          s4 = Zero key s3
      in (naclKey, s4))"

definition Seal :: "lib \<Rightarrow> slice \<Rightarrow> slice \<Rightarrow> state \<Rightarrow> (error + slice) \<times> state" where
  "Seal L pass message s =
     (let ((salt, err), s1) = randBytes saltSize s in
      case err of
        Some e \<Rightarrow> (Inl ErrEncrypt, s1)
      | None \<Rightarrow>
          (let (key, s2) = deriveKey L pass salt s1;
               (res, s3) = encrypt L key message s2;
               s4 = Zero key s3
           in case res of
                Inl e \<Rightarrow> (Inl ErrEncrypt, s4)
              | Inr out \<Rightarrow>
                  (let (out', s5) = append_slice salt out s4 in (Inr out', s5))))"

definition Open :: "lib \<Rightarrow> slice \<Rightarrow> slice \<Rightarrow> state \<Rightarrow> (error + slice) \<times> state" where
  "Open L pass message s =
     (if len message < overhead then (Inl ErrDecrypt, s)
      else
        (case reslice message 0 saltSize of
           Inl e \<Rightarrow> (Inl e, s)
         | Inr salt \<Rightarrow>
             (let (key, s1) = deriveKey L pass salt s in
              case reslice message saltSize (len message) of
                Inl e \<Rightarrow> (Inl e, s1)
              | Inr rest \<Rightarrow>
                  (let (res, s2) = decrypt L key rest s1;
                       s3 = Zero key s2
                   in case res of
                        Inl e \<Rightarrow> (Inl ErrDecrypt, s3)
                      | Inr out \<Rightarrow> (Inr out, s3)))))"

subsection \<open>Specification functions\<close>

text \<open>
  The definitions of this subsection are not code of the package. They name the values
  the theorems speak about: the bytes of a slice read from a store, the key a call of
  \<^verbatim>\<open>deriveKey\<close> leaves in its array, the envelope a successful \<^verbatim>\<open>Seal\<close> returns.
\<close>

definition bytes_of :: "(buf \<Rightarrow> byte list option) \<Rightarrow> slice \<Rightarrow> byte list" where
  "bytes_of m sl = (case m (base sl) of None \<Rightarrow> [] | Some bs \<Rightarrow> take (len sl) (drop (off sl) bs))"

text \<open>
  The content of the key array after \<^verbatim>\<open>copy(naclKey[:], key)\<close>: the derived bytes,
  or zeros when \<^verbatim>\<open>scrypt.Key\<close> failed and returned nil.
\<close>

definition key_of :: "lib \<Rightarrow> byte list \<Rightarrow> byte list \<Rightarrow> int \<Rightarrow> byte list" where
  "key_of L p sa N =
     (case scrypt_Key L p sa N 8 1 keySize of
        Inl e \<Rightarrow> replicate keySize 0
      | Inr k \<Rightarrow> take keySize k @ replicate (keySize - length k) 0)"

text \<open>The array \<^verbatim>\<open>scrypt.Key\<close> returned, after \<^verbatim>\<open>deriveKey\<close> has zeroed it.\<close>

definition scrypt_buf_after ::
  "lib \<Rightarrow> byte list \<Rightarrow> byte list \<Rightarrow> int \<Rightarrow> byte list option \<Rightarrow> byte list option" where
  "scrypt_buf_after L p sa N old =
     (case scrypt_Key L p sa N 8 1 keySize of
        Inl e \<Rightarrow> old
      | Inr k \<Rightarrow> Some (replicate (length k) 0))"

text \<open>The arrays a call of \<^verbatim>\<open>Seal\<close>, and a call of \<^verbatim>\<open>Open\<close>, allocates.\<close>

definition Seal_allocs :: "buf set" where
  "Seal_allocs = {SaltBuf, NonceBuf, OutBuf, BoxBuf, ScryptBuf, NaclKey, EnvBuf}"

definition Open_allocs :: "buf set" where
  "Open_allocs = {NonceBuf, ScryptBuf, NaclKey, PlainBuf}"

text \<open>
  An allocation of Go is fresh: the slices a caller passes in never point into an array
  that the call allocates later. The allocation sites of the model have fixed names, so
  the theorems state this as a condition on the arguments, together with the arguments
  lying inside their arrays.
\<close>

definition call_args :: "buf set \<Rightarrow> state \<Rightarrow> slice \<Rightarrow> slice \<Rightarrow> bool" where
  "call_args A s pass message \<longleftrightarrow>
     in_bounds s pass \<and> in_bounds s message \<and> base pass \<notin> A \<and> base message \<notin> A"

text \<open>
  The envelope for passphrase \<open>p\<close>, message \<open>m\<close>, cost \<open>N\<close> and random bytes \<open>R\<close>:
  salt, nonce, box.
\<close>

definition sealed :: "lib \<Rightarrow> byte list \<Rightarrow> byte list \<Rightarrow> int \<Rightarrow> byte list \<Rightarrow> byte list" where
  "sealed L p m N R =
     (let salt = take saltSize R; nonce = take nonceSize (drop saltSize R)
      in salt @ nonce @ box_seal L m nonce (key_of L p salt N))"

text \<open>
  What the theorems assume of secretbox, for a nonce of 24 and a key of 32 bytes (the
  array types of its signature): the box is \<^verbatim>\<open>secretbox.Overhead\<close> bytes longer than
  the message, and opening a box with the nonce and key that sealed it returns the
  message.
\<close>

definition secretbox_contract :: "lib \<Rightarrow> bool" where
  "secretbox_contract L \<longleftrightarrow>
     (\<forall>m n k. length n = nonceSize \<longrightarrow> length k = keySize \<longrightarrow>
        length (box_seal L m n k) = length m + secretbox_Overhead \<and>
        box_open L (box_seal L m n k) n k = Some m)"

subsection \<open>Predicates of the claims\<close>

text \<open>A byte list of zeros.\<close>

definition all_zero :: "byte list \<Rightarrow> bool" where
  "all_zero bs \<longleftrightarrow> bs = replicate (length bs) 0"

text \<open>The key derivations among the logged calls.\<close>

fun is_derivation :: "call \<Rightarrow> bool" where
  "is_derivation (CallScryptKey p sa N) = True"
| "is_derivation c = False"

definition derivations :: "state \<Rightarrow> call list" where
  "derivations s = filter is_derivation (calls s)"

text \<open>
  The state of the key arrays when a call returns in \<open>s'\<close>, having started in \<open>s\<close>.
  If the call derived no key, it did not touch them. If it derived one, the key array
  \<open>NaclKey\<close> holds 32 zero bytes, and the array returned by \<^verbatim>\<open>scrypt.Key\<close> is all
  zero (or, when \<^verbatim>\<open>scrypt.Key\<close> failed and returned no array, \<open>ScryptBuf\<close> is as
  it was).
\<close>

definition key_wiped :: "state \<Rightarrow> state \<Rightarrow> bool" where
  "key_wiped s s' =
     (if derivations s' = derivations s
      then store s' NaclKey = store s NaclKey \<and> store s' ScryptBuf = store s ScryptBuf
      else store s' NaclKey = Some (replicate keySize 0) \<and>
           (store s' ScryptBuf = store s ScryptBuf \<or>
            (case store s' ScryptBuf of None \<Rightarrow> False | Some bs \<Rightarrow> all_zero bs)))"

text \<open>
  The caller's memory is the same in \<open>s'\<close> as in \<open>s\<close>: the bytes of both argument
  slices, and every array of the caller.
\<close>

definition caller_frame :: "state \<Rightarrow> state \<Rightarrow> slice \<Rightarrow> slice \<Rightarrow> bool" where
  "caller_frame s s' pass message \<longleftrightarrow>
     load s' pass = load s pass \<and> load s' message = load s message \<and>
     (\<forall>n. store s' (Caller n) = store s (Caller n))"



subsection \<open>A small instance for concrete runs\<close>

text \<open>
  An instance of the external packages on which the theorems are run at concrete
  inputs. It is neither scrypt nor secretbox: the key is the byte sum of passphrase and
  salt, repeated, and the box is a tag taken from the key followed by the message. It
  satisfies \<open>secretbox_contract\<close>.
\<close>

definition stub_scrypt :: "byte list \<Rightarrow> byte list \<Rightarrow> int \<Rightarrow> int \<Rightarrow> int \<Rightarrow> nat \<Rightarrow> error + byte list" where
  "stub_scrypt p sa N r q n = Inr (replicate n (sum_list p + sum_list sa))"

definition stub_tag :: "byte list \<Rightarrow> byte list" where
  "stub_tag k = take secretbox_Overhead (k @ replicate secretbox_Overhead 0)"

definition stub_seal :: "byte list \<Rightarrow> byte list \<Rightarrow> byte list \<Rightarrow> byte list" where
  "stub_seal m n k = stub_tag k @ m"

definition stub_open :: "byte list \<Rightarrow> byte list \<Rightarrow> byte list \<Rightarrow> byte list option" where
  "stub_open box n k =
     (if secretbox_Overhead \<le> length box \<and> take secretbox_Overhead box = stub_tag k
      then Some (drop secretbox_Overhead box) else None)"

definition stub :: lib where
  "stub = \<lparr>scrypt_Key = stub_scrypt, box_seal = stub_seal, box_open = stub_open\<rparr>"

text \<open>
  A start state: the caller holds three passphrases, a message of three bytes and an
  array of 32 bytes, and the random source has 56 bytes left, enough for one salt and
  one nonce. The first two passphrases have the same byte sum.
\<close>

definition s0 :: state where
  "s0 = \<lparr>store = (\<lambda>b. None)(Caller 0 \<mapsto> [1, 2], Caller 1 \<mapsto> [7, 8, 9], Caller 2 \<mapsto> [3],
                                Caller 3 \<mapsto> [9], Caller 4 \<mapsto> replicate 32 1),
         Reader = replicate 56 5, Iterations = IterationsHigh, calls = []\<rparr>"

definition pass_a :: slice where
  "pass_a = \<lparr>base = Caller 0, off = 0, len = 2\<rparr>"

definition pass_b :: slice where
  "pass_b = \<lparr>base = Caller 2, off = 0, len = 1\<rparr>"

definition pass_c :: slice where
  "pass_c = \<lparr>base = Caller 3, off = 0, len = 1\<rparr>"

definition msg0 :: slice where
  "msg0 = \<lparr>base = Caller 1, off = 0, len = 3\<rparr>"

definition key0 :: slice where
  "key0 = \<lparr>base = Caller 4, off = 0, len = 32\<rparr>"

section \<open>Effects of the functions\<close>

lemma Zero_loop_fields [simp]:
  "Reader (Zero_loop i sl s) = Reader s"
  "Iterations (Zero_loop i sl s) = Iterations s"
  "calls (Zero_loop i sl s) = calls s"
  by (induction i sl s rule: Zero_loop.induct; subst Zero_loop.simps; simp add: poke_def split: option.splits)+

lemma Zero_loop_other:
  "b \<noteq> base sl \<Longrightarrow> store (Zero_loop i sl s) b = store s b"
  by (induction i sl s rule: Zero_loop.induct; subst Zero_loop.simps; simp add: poke_def split: option.splits)

lemma Zero_loop_None:
  "store s (base sl) = None \<Longrightarrow> store (Zero_loop i sl s) (base sl) = None"
  by (induction i sl s rule: Zero_loop.induct; subst Zero_loop.simps; simp add: poke_def split: option.splits)

lemma Zero_loop_Some:
  "store s (base sl) = Some bs \<Longrightarrow> i \<le> len sl \<Longrightarrow> off sl + len sl \<le> length bs \<Longrightarrow>
   store (Zero_loop i sl s) (base sl) =
     Some (take (off sl + i) bs @ replicate (len sl - i) 0 @ drop (off sl + len sl) bs)"
proof (induction i sl s arbitrary: bs rule: Zero_loop.induct)
  case (1 i inp s)
  show ?case
  proof (cases "i < len inp")
    case True
    let ?s = "poke inp i 0 s"
    have st: "store ?s (base inp) = Some (bs[off inp + i := 0])"
      using 1(2) by (simp add: poke_def)
    have "store (Zero_loop (i + 1) inp ?s) (base inp) =
        Some (take (off inp + (i + 1)) (bs[off inp + i := 0]) @ replicate (len inp - (i + 1)) 0
              @ drop (off inp + len inp) (bs[off inp + i := 0]))"
      using True 1(4) by (intro 1(1)[OF True st]) simp_all
    moreover have "take (off inp + (i + 1)) (bs[off inp + i := 0]) = take (off inp + i) bs @ [0]"
      using True 1(4) by (simp add: take_Suc_conv_app_nth)
    moreover have "replicate (len inp - i) (0::byte) = 0 # replicate (len inp - (i + 1)) 0"
      using True by (cases "len inp - i") simp_all
    ultimately show ?thesis
      using True by (subst Zero_loop.simps) simp
  next
    case False
    with 1(3) have "i = len inp" by simp
    then show ?thesis using 1(2) by (subst Zero_loop.simps) simp
  qed
qed

lemma Zero_empty: "len sl = 0 \<Longrightarrow> Zero sl s = s"
  by (simp add: Zero_def Zero_loop.simps)

lemma Zero_whole:
  assumes "store s b = Some bs" "length bs = n"
  shows "Zero \<lparr>base = b, off = 0, len = n\<rparr> s = s\<lparr>store := (store s)(b \<mapsto> replicate n 0)\<rparr>"
proof -
  let ?sl = "\<lparr>base = b, off = 0, len = n\<rparr>"
  have "store (Zero_loop 0 ?sl s) b = Some (replicate n 0)"
    using Zero_loop_Some[of s ?sl bs 0] assms by simp
  moreover have "\<And>c. c \<noteq> b \<Longrightarrow> store (Zero_loop 0 ?sl s) c = store s c"
    using Zero_loop_other[of _ ?sl 0 s] by simp
  ultimately have "store (Zero_loop 0 ?sl s) = (store s)(b \<mapsto> replicate n 0)"
    by (intro ext) simp
  then show ?thesis
    unfolding Zero_def by (intro state.equality) simp_all
qed

lemma randBytes_ok:
  "n \<le> length (Reader s) \<Longrightarrow>
   randBytes n s =
     ((\<lparr>base = SaltBuf, off = 0, len = n\<rparr>, None),
      s\<lparr>store := (store s)(SaltBuf \<mapsto> take n (Reader s)),
        Reader := drop n (Reader s),
        calls := calls s @ [CallRandRead n]\<rparr>)"
  by (simp add: randBytes_def make_def rand_Read_def store_at_def min_def Let_def)

lemma randBytes_fail:
  "length (Reader s) < n \<Longrightarrow>
   randBytes n s =
     ((\<lparr>base = SaltBuf, off = 0, len = n\<rparr>, Some ErrRandom),
      s\<lparr>store := (store s)(SaltBuf \<mapsto> Reader s @ replicate (n - length (Reader s)) 0),
        Reader := [],
        calls := calls s @ [CallRandRead n]\<rparr>)"
  by (simp add: randBytes_def make_def rand_Read_def store_at_def min_def Let_def)

lemma generateNonce_ok:
  "nonceSize \<le> length (Reader s) \<Longrightarrow>
   generateNonce s =
     (Inr \<lparr>base = NonceBuf, off = 0, len = nonceSize\<rparr>,
      s\<lparr>store := (store s)(NonceBuf \<mapsto> take nonceSize (Reader s)),
        Reader := drop nonceSize (Reader s),
        calls := calls s @ [CallRandRead nonceSize]\<rparr>)"
  by (simp add: generateNonce_def make_def rand_Read_def store_at_def min_def Let_def)

lemma generateNonce_fail:
  "length (Reader s) < nonceSize \<Longrightarrow>
   generateNonce s =
     (Inl ErrRandom,
      s\<lparr>store := (store s)(NonceBuf \<mapsto> Reader s @ replicate (nonceSize - length (Reader s)) 0),
        Reader := [],
        calls := calls s @ [CallRandRead nonceSize]\<rparr>)"
  by (simp add: generateNonce_def make_def rand_Read_def store_at_def min_def Let_def)

lemma load_bytes_of: "load s sl = bytes_of (store s) sl"
  by (simp add: load_def bytes_of_def)

lemma bytes_of_upd_other [simp]: "base sl \<noteq> b \<Longrightarrow> bytes_of (m(b := v)) sl = bytes_of m sl"
  by (simp add: bytes_of_def)

lemma bytes_of_whole [simp]:
  "n = length bs \<Longrightarrow> bytes_of (m(b \<mapsto> bs)) \<lparr>base = b, off = 0, len = n\<rparr> = bs"
  by (simp add: bytes_of_def)

lemma bytes_of_nil [simp]: "bytes_of m nil = []"
  by (simp add: bytes_of_def nil_def split: option.splits)

lemma length_key_of [simp]: "length (key_of L p sa N) = keySize"
  by (auto simp: key_of_def split: sum.splits)

lemma fun_upd_other_triv: "b \<noteq> a \<Longrightarrow> (m(a := x))(b := m b) = m(a := x)"
  by (auto simp: fun_eq_iff)

lemma make_eq: "make b n s = (\<lparr>base = b, off = 0, len = n\<rparr>, s\<lparr>store := (store s)(b \<mapsto> replicate n 0)\<rparr>)"
  by (simp add: make_def)

lemma copy_whole:
  "store s b = Some old \<Longrightarrow> length old = n \<Longrightarrow>
   copy \<lparr>base = b, off = 0, len = n\<rparr> src s =
     s\<lparr>store := (store s)(b \<mapsto> take n (load s src) @ drop (length (load s src)) old)\<rparr>"
  by (simp add: copy_def store_at_def Let_def min_def)

lemma deriveKey_eq:
  assumes "base pass \<noteq> NaclKey" "base salt \<noteq> NaclKey"
  shows "deriveKey L pass salt s =
     (\<lparr>base = NaclKey, off = 0, len = keySize\<rparr>,
      s\<lparr>store := (store s)
           (NaclKey \<mapsto> key_of L (load s pass) (load s salt) (Iterations s),
            ScryptBuf := scrypt_buf_after L (load s pass) (load s salt) (Iterations s) (store s ScryptBuf)),
        calls := calls s @ [CallScryptKey (load s pass) (load s salt) (Iterations s)]\<rparr>)"
proof -
  let ?K = "\<lparr>base = NaclKey, off = 0, len = keySize\<rparr>"
  let ?s1 = "s\<lparr>store := (store s)(NaclKey \<mapsto> replicate keySize 0)\<rparr>"
  let ?c = "calls s @ [CallScryptKey (load s pass) (load s salt) (Iterations s)]"
  have lp: "load ?s1 pass = load s pass" and ls: "load ?s1 salt = load s salt"
    using assms by (simp_all add: load_bytes_of)
  show ?thesis
  proof (cases "scrypt_Key L (load s pass) (load s salt) (Iterations s) 8 1 keySize")
    case (Inl e)
    have call: "scrypt_Key_call L pass salt (Iterations ?s1) 8 1 keySize ?s1 = ((nil, Some e), ?s1\<lparr>calls := ?c\<rparr>)"
      using Inl by (simp add: scrypt_Key_call_def lp ls)
    have cp: "copy ?K nil (?s1\<lparr>calls := ?c\<rparr>) = ?s1\<lparr>calls := ?c\<rparr>"
      by (subst copy_whole[where old = "replicate keySize 0"]) (simp_all add: load_bytes_of)
    have z: "Zero nil (?s1\<lparr>calls := ?c\<rparr>) = ?s1\<lparr>calls := ?c\<rparr>"
      by (rule Zero_empty) (simp add: nil_def)
    have "deriveKey L pass salt s = (?K, ?s1\<lparr>calls := ?c\<rparr>)"
      by (simp only: deriveKey_def make_eq Let_def prod.case call cp z)
    then show ?thesis
      using Inl by (simp add: key_of_def scrypt_buf_after_def fun_upd_other_triv)
  next
    case (Inr k)
    let ?key = "\<lparr>base = ScryptBuf, off = 0, len = length k\<rparr>"
    let ?s2 = "?s1\<lparr>calls := ?c, store := (store ?s1)(ScryptBuf \<mapsto> k)\<rparr>"
    have call: "scrypt_Key_call L pass salt (Iterations ?s1) 8 1 keySize ?s1 = ((?key, None), ?s2)"
      using Inr by (simp add: scrypt_Key_call_def lp ls)
    let ?s3 = "?s2\<lparr>store := (store ?s2)(NaclKey \<mapsto> take keySize k @ replicate (keySize - length k) 0)\<rparr>"
    have cp: "copy ?K ?key ?s2 = ?s3"
      by (subst copy_whole[where old = "replicate keySize 0"]) (simp_all add: load_bytes_of)
    have z: "Zero ?key ?s3 = ?s3\<lparr>store := (store ?s3)(ScryptBuf \<mapsto> replicate (length k) 0)\<rparr>"
      by (rule Zero_whole[where bs = k]) simp_all
    have "deriveKey L pass salt s = (?K, ?s3\<lparr>store := (store ?s3)(ScryptBuf \<mapsto> replicate (length k) 0)\<rparr>)"
      by (simp only: deriveKey_def make_eq Let_def prod.case call cp z)
    then show ?thesis
      using Inr by (simp add: key_of_def scrypt_buf_after_def fun_upd_twist)
  qed
qed

lemma Zero_whole':
  "map_option length (store s b) = Some n \<Longrightarrow>
   Zero \<lparr>base = b, off = 0, len = n\<rparr> s = s\<lparr>store := (store s)(b \<mapsto> replicate n 0)\<rparr>"
  by (cases "store s b") (simp_all add: Zero_whole)

lemma secretbox_Seal_eq:
  "secretbox_Seal L out message nonce key s =
     (\<lparr>base = BoxBuf, off = 0,
       len = length (load s out) + length (box_seal L (load s message) (load s nonce) (load s key))\<rparr>,
      s\<lparr>store := (store s)(BoxBuf \<mapsto> load s out @ box_seal L (load s message) (load s nonce) (load s key)),
        calls := calls s @ [CallBoxSeal]\<rparr>)"
  by (simp add: secretbox_Seal_def Let_def)

lemma copy_fresh:
  "store s b = Some (replicate n 0) \<Longrightarrow> length (load s src) = n \<Longrightarrow>
   copy \<lparr>base = b, off = 0, len = n\<rparr> src s = s\<lparr>store := (store s)(b \<mapsto> load s src)\<rparr>"
  by (simp add: copy_whole)

lemma encrypt_ok:
  assumes "nonceSize \<le> length (Reader s)"
    and "base key \<noteq> NonceBuf" "base key \<noteq> OutBuf"
    and "base message \<noteq> NonceBuf" "base message \<noteq> OutBuf"
  shows "encrypt L key message s =
     (Inr \<lparr>base = BoxBuf, off = 0,
           len = nonceSize + length (box_seal L (load s message) (take nonceSize (Reader s)) (load s key))\<rparr>,
      s\<lparr>store := (store s)
           (NonceBuf \<mapsto> take nonceSize (Reader s),
            OutBuf \<mapsto> take nonceSize (Reader s),
            BoxBuf \<mapsto> take nonceSize (Reader s)
                        @ box_seal L (load s message) (take nonceSize (Reader s)) (load s key)),
        Reader := drop nonceSize (Reader s),
        calls := calls s @ [CallRandRead nonceSize, CallBoxSeal]\<rparr>)"
  using assms
  by (simp add: encrypt_def generateNonce_ok make_eq copy_fresh secretbox_Seal_eq
      load_bytes_of min_def)

lemma encrypt_fail:
  assumes "length (Reader s) < nonceSize"
  shows "encrypt L key message s =
     (Inl ErrEncrypt,
      s\<lparr>store := (store s)(NonceBuf \<mapsto> Reader s @ replicate (nonceSize - length (Reader s)) 0),
        Reader := [],
        calls := calls s @ [CallRandRead nonceSize]\<rparr>)"
  using assms by (simp add: encrypt_def generateNonce_fail)

lemma append_slice_eq:
  "append_slice a b s =
     (\<lparr>base = EnvBuf, off = 0, len = length (load s a) + length (load s b)\<rparr>,
      s\<lparr>store := (store s)(EnvBuf \<mapsto> load s a @ load s b)\<rparr>)"
  by (simp add: append_slice_def Let_def)

lemma Seal_ok:
  assumes "saltSize + nonceSize \<le> length (Reader s)"
    and "base pass \<notin> Seal_allocs" "base message \<notin> Seal_allocs"
  shows "Seal L pass message s =
     (Inr \<lparr>base = EnvBuf, off = 0,
           len = length (sealed L (load s pass) (load s message) (Iterations s) (Reader s))\<rparr>,
      s\<lparr>store := (store s)
           (SaltBuf \<mapsto> take saltSize (Reader s),
            NaclKey \<mapsto> replicate keySize 0,
            ScryptBuf := scrypt_buf_after L (load s pass) (take saltSize (Reader s)) (Iterations s)
                           (store s ScryptBuf),
            NonceBuf \<mapsto> take nonceSize (drop saltSize (Reader s)),
            OutBuf \<mapsto> take nonceSize (drop saltSize (Reader s)),
            BoxBuf \<mapsto> drop saltSize (sealed L (load s pass) (load s message) (Iterations s) (Reader s)),
            EnvBuf \<mapsto> sealed L (load s pass) (load s message) (Iterations s) (Reader s)),
        Reader := drop (saltSize + nonceSize) (Reader s),
        calls := calls s @ [CallRandRead saltSize,
                            CallScryptKey (load s pass) (take saltSize (Reader s)) (Iterations s),
                            CallRandRead nonceSize, CallBoxSeal]\<rparr>)"
  using assms
  apply (simp add: Seal_def Seal_allocs_def randBytes_ok deriveKey_eq encrypt_ok Zero_whole'
      append_slice_eq load_bytes_of sealed_def Let_def min_def)
  apply (simp add: fun_upd_twist add.commute)
  done

lemma Seal_fail_salt:
  assumes "length (Reader s) < saltSize"
  shows "Seal L pass message s =
     (Inl ErrEncrypt,
      s\<lparr>store := (store s)(SaltBuf \<mapsto> Reader s @ replicate (saltSize - length (Reader s)) 0),
        Reader := [],
        calls := calls s @ [CallRandRead saltSize]\<rparr>)"
  using assms by (simp add: Seal_def randBytes_fail)

lemma Seal_fail_nonce:
  assumes "saltSize \<le> length (Reader s)" "length (Reader s) < saltSize + nonceSize"
    and "base pass \<notin> Seal_allocs"
  shows "Seal L pass message s =
     (Inl ErrEncrypt,
      s\<lparr>store := (store s)
           (SaltBuf \<mapsto> take saltSize (Reader s),
            NaclKey \<mapsto> replicate keySize 0,
            ScryptBuf := scrypt_buf_after L (load s pass) (take saltSize (Reader s)) (Iterations s)
                           (store s ScryptBuf),
            NonceBuf \<mapsto> drop saltSize (Reader s)
                          @ replicate (saltSize + nonceSize - length (Reader s)) 0),
        Reader := [],
        calls := calls s @ [CallRandRead saltSize,
                            CallScryptKey (load s pass) (take saltSize (Reader s)) (Iterations s),
                            CallRandRead nonceSize]\<rparr>)"
  using assms
  apply (simp add: Seal_def Seal_allocs_def randBytes_ok deriveKey_eq encrypt_fail Zero_whole'
      load_bytes_of Let_def min_def)
  apply (simp add: fun_upd_twist add.commute)
  done

lemma bytes_of_reslice:
  "lo \<le> hi \<Longrightarrow> hi \<le> len sl \<Longrightarrow>
   bytes_of m \<lparr>base = base sl, off = off sl + lo, len = hi - lo\<rparr> = take (hi - lo) (drop lo (bytes_of m sl))"
  by (simp add: bytes_of_def drop_take add.commute min_def split: option.splits)

lemma length_load: "in_bounds s sl \<Longrightarrow> length (load s sl) = len sl"
  by (auto simp: in_bounds_def load_def split: option.splits)

lemma decrypt_eq:
  assumes "nonceSize + secretbox_Overhead \<le> len message" "in_bounds s message"
    and "base key \<noteq> NonceBuf" "base message \<noteq> NonceBuf"
  shows "decrypt L key message s =
     (case box_open L (drop nonceSize (load s message)) (take nonceSize (load s message)) (load s key) of
        None \<Rightarrow>
          (Inl ErrDecrypt,
           s\<lparr>store := (store s)(NonceBuf \<mapsto> take nonceSize (load s message)),
             calls := calls s @ [CallBoxOpen]\<rparr>)
      | Some m \<Rightarrow>
          (Inr \<lparr>base = PlainBuf, off = 0, len = length m\<rparr>,
           s\<lparr>store := (store s)(NonceBuf \<mapsto> take nonceSize (load s message), PlainBuf \<mapsto> m),
             calls := calls s @ [CallBoxOpen]\<rparr>))"
proof -
  have l: "length (load s message) = len message"
    using assms(2) by (rule length_load)
  let ?front = "\<lparr>base = base message, off = off message, len = nonceSize\<rparr>"
  let ?box = "\<lparr>base = base message, off = off message + nonceSize, len = len message - nonceSize\<rparr>"
  have f: "bytes_of m ?front = take nonceSize (bytes_of m message)" for m
    using assms(1) bytes_of_reslice[of 0 nonceSize message m] by simp
  have b: "bytes_of m ?box = drop nonceSize (bytes_of m message)" if "length (bytes_of m message) = len message" for m
    using assms(1) that by (subst bytes_of_reslice) simp_all
  show ?thesis
    using assms l
    apply (simp add: decrypt_def reslice_def make_eq Let_def)
    apply (subst copy_fresh)
      apply (simp_all add: load_bytes_of f b secretbox_Open_def Let_def split: option.splits)
    done
qed

lemma Open_short: "len message < overhead \<Longrightarrow> Open L pass message s = (Inl ErrDecrypt, s)"
  by (simp add: Open_def)

lemma in_bounds_cong: "store s' (base sl) = store s (base sl) \<Longrightarrow> in_bounds s' sl = in_bounds s sl"
  by (simp add: in_bounds_def)

lemma in_bounds_reslice:
  "in_bounds s sl \<Longrightarrow> lo \<le> hi \<Longrightarrow> hi \<le> len sl \<Longrightarrow>
   in_bounds s \<lparr>base = base sl, off = off sl + lo, len = hi - lo\<rparr>"
  by (auto simp: in_bounds_def split: option.splits)

lemma Open_eq:
  assumes "overhead \<le> len message" "in_bounds s message"
    and "base pass \<notin> Open_allocs" "base message \<notin> Open_allocs"
  shows "Open L pass message s =
     (let E = load s message;
          salt = take saltSize E;
          nonce = take nonceSize (drop saltSize E);
          st = (store s)
                 (NaclKey \<mapsto> replicate keySize 0,
                  ScryptBuf := scrypt_buf_after L (load s pass) salt (Iterations s) (store s ScryptBuf),
                  NonceBuf \<mapsto> nonce);
          c = calls s @ [CallScryptKey (load s pass) salt (Iterations s), CallBoxOpen]
      in case box_open L (drop (saltSize + nonceSize) E) nonce
                (key_of L (load s pass) salt (Iterations s)) of
           None \<Rightarrow> (Inl ErrDecrypt, s\<lparr>store := st, calls := c\<rparr>)
         | Some m \<Rightarrow>
             (Inr \<lparr>base = PlainBuf, off = 0, len = length m\<rparr>,
              s\<lparr>store := st(PlainBuf \<mapsto> m), calls := c\<rparr>))"
proof -
  let ?E = "load s message"
  let ?salt = "\<lparr>base = base message, off = off message, len = saltSize\<rparr>"
  let ?rest = "\<lparr>base = base message, off = off message + saltSize, len = len message - saltSize\<rparr>"
  have bases: "base pass \<noteq> NaclKey" "base message \<noteq> NaclKey" "base message \<noteq> ScryptBuf"
    "base message \<noteq> NonceBuf" "base pass \<noteq> ScryptBuf"
    using assms(3,4) by (auto simp: Open_allocs_def)
  have big: "saltSize + nonceSize + secretbox_Overhead \<le> len message"
    using assms(1) by (simp add: overhead_def)
  have l: "length ?E = len message"
    using assms(2) by (rule length_load)
  have r1: "reslice message 0 saltSize = Inr ?salt"
    using big by (simp add: reslice_def)
  have r2: "reslice message saltSize (len message) = Inr ?rest"
    using big by (simp add: reslice_def)
  have ls: "load s ?salt = take saltSize ?E"
    using big bytes_of_reslice[of 0 saltSize message "store s"] by (simp add: load_bytes_of)
  obtain key s1 where dk: "deriveKey L pass ?salt s = (key, s1)"
    by (cases "deriveKey L pass ?salt s")
  have key: "key = \<lparr>base = NaclKey, off = 0, len = keySize\<rparr>"
    and s1: "s1 = s\<lparr>store := (store s)
           (NaclKey \<mapsto> key_of L (load s pass) (take saltSize ?E) (Iterations s),
            ScryptBuf := scrypt_buf_after L (load s pass) (take saltSize ?E) (Iterations s) (store s ScryptBuf)),
        calls := calls s @ [CallScryptKey (load s pass) (take saltSize ?E) (Iterations s)]\<rparr>"
    using dk bases by (simp_all add: deriveKey_eq ls)
  have m1: "store s1 (base message) = store s (base message)"
    using bases by (simp add: s1)
  have ib: "in_bounds s1 ?rest"
    using in_bounds_reslice[OF assms(2), of saltSize "len message"] big
    by (simp add: in_bounds_def m1)
  have lr: "load s1 ?rest = drop saltSize ?E"
    using big l bytes_of_reslice[of saltSize "len message" message "store s"]
    by (simp add: load_bytes_of m1 bytes_of_def)
  have lk: "load s1 key = key_of L (load s pass) (take saltSize ?E) (Iterations s)"
    by (simp add: key s1 load_bytes_of)
  have dec: "decrypt L key ?rest s1 =
     (case box_open L (drop nonceSize (load s1 ?rest)) (take nonceSize (load s1 ?rest)) (load s1 key) of
        None \<Rightarrow>
          (Inl ErrDecrypt,
           s1\<lparr>store := (store s1)(NonceBuf \<mapsto> take nonceSize (load s1 ?rest)),
              calls := calls s1 @ [CallBoxOpen]\<rparr>)
      | Some m \<Rightarrow>
          (Inr \<lparr>base = PlainBuf, off = 0, len = length m\<rparr>,
           s1\<lparr>store := (store s1)(NonceBuf \<mapsto> take nonceSize (load s1 ?rest), PlainBuf \<mapsto> m),
              calls := calls s1 @ [CallBoxOpen]\<rparr>))"
    using big bases by (intro decrypt_eq ib) (simp_all add: key)
  have g: "\<not> len message < overhead"
    using assms(1) by simp
  let ?nonce = "take nonceSize (drop saltSize ?E)"
  let ?X = "box_open L (drop nonceSize (drop saltSize ?E)) ?nonce
              (key_of L (load s pass) (take saltSize ?E) (Iterations s))"
  let ?s2 = "\<lambda>st. s1\<lparr>store := st, calls := calls s1 @ [CallBoxOpen]\<rparr>"
  have open1: "Open L pass message s =
      (case ?X of
         None \<Rightarrow> (Inl ErrDecrypt, Zero key (?s2 ((store s1)(NonceBuf \<mapsto> ?nonce))))
       | Some m \<Rightarrow>
           (Inr \<lparr>base = PlainBuf, off = 0, len = length m\<rparr>,
            Zero key (?s2 ((store s1)(NonceBuf \<mapsto> ?nonce, PlainBuf \<mapsto> m)))))"
    by (cases ?X; simp only: Open_def g if_False r1 r2 sum.case dk Let_def prod.case dec lr lk option.case)
  have dd: "drop (saltSize + nonceSize) ?E = drop nonceSize (drop saltSize ?E)"
    by (simp add: add.commute)
  show ?thesis
    unfolding open1 Let_def dd
    by (cases ?X; simp add: key s1 Zero_whole' fun_upd_twist)
qed

lemma Seal_Inr_Reader:
  assumes "Seal L pass message s = (Inr env, s1)" "base pass \<notin> Seal_allocs"
  shows "saltSize + nonceSize \<le> length (Reader s)"
proof (rule ccontr)
  assume "\<not> ?thesis"
  then consider "length (Reader s) < saltSize"
    | "saltSize \<le> length (Reader s)" "length (Reader s) < saltSize + nonceSize"
    by linarith
  then show False
    using assms by cases (simp_all add: Seal_fail_salt Seal_fail_nonce)
qed

lemma length_sealed:
  assumes "secretbox_contract L" "saltSize + nonceSize \<le> length R"
  shows "length (sealed L p m N R) = length m + overhead"
proof -
  have "length (take saltSize R) = saltSize" "length (take nonceSize (drop saltSize R)) = nonceSize"
    using assms(2) by simp_all
  then show ?thesis
    using assms(1) by (simp add: sealed_def Let_def secretbox_contract_def overhead_def)
qed

lemma Seal_Inr:
  assumes "Seal L pass message s = (Inr env, s1)"
    and "base pass \<notin> Seal_allocs" "base message \<notin> Seal_allocs"
  shows "env = \<lparr>base = EnvBuf, off = 0,
                len = length (sealed L (load s pass) (load s message) (Iterations s) (Reader s))\<rparr>"
    and "load s1 env = sealed L (load s pass) (load s message) (Iterations s) (Reader s)"
    and "in_bounds s1 env"
    and "Iterations s1 = Iterations s"
    and "b \<notin> Seal_allocs \<Longrightarrow> store s1 b = store s b"
proof -
  have R: "saltSize + nonceSize \<le> length (Reader s)"
    using assms(1,2) by (rule Seal_Inr_Reader)
  have e: "Inr env = fst (Seal L pass message s)" and s1: "s1 = snd (Seal L pass message s)"
    using assms(1) by simp_all
  show env: "env = \<lparr>base = EnvBuf, off = 0,
                len = length (sealed L (load s pass) (load s message) (Iterations s) (Reader s))\<rparr>"
    using e unfolding Seal_ok[OF R assms(2,3)] by simp
  show "load s1 env = sealed L (load s pass) (load s message) (Iterations s) (Reader s)"
    unfolding s1 env Seal_ok[OF R assms(2,3)] by (simp add: load_bytes_of)
  show "in_bounds s1 env"
    unfolding s1 env Seal_ok[OF R assms(2,3)] by (simp add: in_bounds_def)
  show "Iterations s1 = Iterations s"
    unfolding s1 Seal_ok[OF R assms(2,3)] by simp
  show "store s1 b = store s b" if "b \<notin> Seal_allocs"
    using that unfolding s1 Seal_ok[OF R assms(2,3)] by (simp add: Seal_allocs_def)
qed

subsection \<open>Results of Open and of Seal followed by Open\<close>

lemma Open_result:
  assumes "overhead \<le> len message" "in_bounds s message"
    and "base pass \<notin> Open_allocs" "base message \<notin> Open_allocs"
  shows "fst (Open L pass message s) =
     (case box_open L (drop (saltSize + nonceSize) (load s message))
             (take nonceSize (drop saltSize (load s message)))
             (key_of L (load s pass) (take saltSize (load s message)) (Iterations s)) of
        None \<Rightarrow> Inl ErrDecrypt
      | Some m \<Rightarrow> Inr \<lparr>base = PlainBuf, off = 0, len = length m\<rparr>)"
    and "box_open L (drop (saltSize + nonceSize) (load s message))
             (take nonceSize (drop saltSize (load s message)))
             (key_of L (load s pass) (take saltSize (load s message)) (Iterations s)) = Some m
         \<Longrightarrow> load (snd (Open L pass message s)) \<lparr>base = PlainBuf, off = 0, len = length m\<rparr> = m"
  unfolding Open_eq[OF assms] Let_def
  by (simp_all add: load_bytes_of split: option.splits)

lemma sealed_parts:
  assumes "saltSize + nonceSize \<le> length R"
  shows "take saltSize (sealed L p m N R) = take saltSize R"
    and "take nonceSize (drop saltSize (sealed L p m N R)) = take nonceSize (drop saltSize R)"
    and "drop (saltSize + nonceSize) (sealed L p m N R) =
          box_seal L m (take nonceSize (drop saltSize R)) (key_of L p (take saltSize R) N)"
proof -
  have a: "length (take saltSize R) = saltSize"
    and b: "length (take nonceSize (drop saltSize R)) = nonceSize"
    using assms by simp_all
  show "take saltSize (sealed L p m N R) = take saltSize R"
    using a by (simp add: sealed_def Let_def)
  show "take nonceSize (drop saltSize (sealed L p m N R)) = take nonceSize (drop saltSize R)"
    using a b by (simp add: sealed_def Let_def)
  show "drop (saltSize + nonceSize) (sealed L p m N R) =
          box_seal L m (take nonceSize (drop saltSize R)) (key_of L p (take saltSize R) N)"
    using a b by (simp add: sealed_def Let_def)
qed


lemma Seal_Open_same_key:
  assumes "secretbox_contract L"
    and "call_args Seal_allocs s pass message"
    and "Seal L pass message s = (Inr env, s1)"
    and "call_args Open_allocs t pass' env'"
    and "load t env' = load s1 env" "Iterations t = Iterations s"
    and "key_of L (load t pass') (take saltSize (Reader s)) (Iterations s) =
         key_of L (load s pass) (take saltSize (Reader s)) (Iterations s)"
  shows "\<exists>out t'. Open L pass' env' t = (Inr out, t') \<and> load t' out = load s message"
proof -
  let ?R = "Reader s"
  let ?E = "sealed L (load s pass) (load s message) (Iterations s) ?R"
  let ?nonce = "take nonceSize (drop saltSize ?R)"
  have sa: "base pass \<notin> Seal_allocs" "base message \<notin> Seal_allocs"
    using assms(2) by (simp_all add: call_args_def)
  have oa: "in_bounds t env'" "base pass' \<notin> Open_allocs" "base env' \<notin> Open_allocs"
    using assms(4) by (simp_all add: call_args_def)
  have R: "saltSize + nonceSize \<le> length ?R"
    using assms(3) sa(1) by (rule Seal_Inr_Reader)
  have E: "load t env' = ?E"
    using Seal_Inr(2)[OF assms(3) sa] assms(5) by simp
  have "len env' = length ?E"
    using length_load[OF oa(1)] E by simp
  then have big: "overhead \<le> len env'"
    using length_sealed[OF assms(1) R, of "load s pass" "load s message" "Iterations s"] by simp
  have n: "length ?nonce = nonceSize"
    using R by simp
  have bo: "box_open L (drop (saltSize + nonceSize) (load t env'))
             (take nonceSize (drop saltSize (load t env')))
             (key_of L (load t pass') (take saltSize (load t env')) (Iterations t)) = Some (load s message)"
    using assms(1) n unfolding E sealed_parts[OF R] assms(6,7)
    by (simp add: secretbox_contract_def)
  let ?out = "\<lparr>base = PlainBuf, off = 0, len = length (load s message)\<rparr>"
  have "fst (Open L pass' env' t) = Inr ?out"
    using Open_result(1)[OF big oa, of L] bo by simp
  moreover have "load (snd (Open L pass' env' t)) ?out = load s message"
    using bo by (rule Open_result(2)[OF big oa])
  ultimately show ?thesis
    by (cases "Open L pass' env' t") auto
qed

lemma Seal_then_Open_args:
  assumes "call_args Seal_allocs s pass message" "Seal L pass message s = (Inr env, s1)"
    and "call_args Seal_allocs s pass' message" "call_args Open_allocs s pass' message"
  shows "call_args Open_allocs s1 pass' env" "load s1 pass' = load s pass'"
    "Iterations s1 = Iterations s"
proof -
  have sa: "base pass \<notin> Seal_allocs" "base message \<notin> Seal_allocs"
    using assms(1) by (simp_all add: call_args_def)
  have p: "in_bounds s pass'" "base pass' \<notin> Seal_allocs" "base pass' \<notin> Open_allocs"
    using assms(3,4) by (simp_all add: call_args_def)
  have st: "store s1 (base pass') = store s (base pass')"
    using p(2) by (rule Seal_Inr(5)[OF assms(2) sa])
  have "base env = EnvBuf"
    using Seal_Inr(1)[OF assms(2) sa] by simp
  then have "base env \<notin> Open_allocs"
    by (simp add: Open_allocs_def)
  then show "call_args Open_allocs s1 pass' env"
    using p Seal_Inr(3)[OF assms(2) sa] in_bounds_cong[OF st] by (simp add: call_args_def)
  show "load s1 pass' = load s pass'"
    using st by (simp add: load_def)
  show "Iterations s1 = Iterations s"
    by (rule Seal_Inr(4)[OF assms(2) sa])
qed

lemma Open_long_derives:
  assumes "overhead \<le> len message" "call_args Open_allocs s pass message"
  shows "derivations (snd (Open L pass message s)) =
         derivations s @ [CallScryptKey (load s pass) (take saltSize (load s message)) (Iterations s)]"
proof -
  have oa: "in_bounds s message" "base pass \<notin> Open_allocs" "base message \<notin> Open_allocs"
    using assms(2) by (simp_all add: call_args_def)
  show ?thesis
    unfolding Open_eq[OF assms(1) oa] Let_def
    by (simp add: derivations_def split: option.splits)
qed

subsection \<open>Erasure and frame\<close>

lemma Zero_load:
  assumes "in_bounds s b"
  shows "load (Zero b s) b = replicate (len b) 0"
proof (cases "store s (base b)")
  case None
  then have "len b = 0"
    using assms by (simp add: in_bounds_def)
  then show ?thesis
    by (simp add: Zero_empty load_def split: option.splits)
next
  case (Some bs)
  then have le: "off b + len b \<le> length bs"
    using assms by (simp add: in_bounds_def)
  have "store (Zero b s) (base b) = Some (take (off b) bs @ replicate (len b) 0 @ drop (off b + len b) bs)"
    unfolding Zero_def using Zero_loop_Some[OF Some _ le, of 0] by simp
  then show ?thesis
    using le by (simp add: load_def)
qed

lemma scrypt_buf_after_cases:
  "scrypt_buf_after L p sa N old = old \<or>
   (case scrypt_buf_after L p sa N old of None \<Rightarrow> False | Some bs \<Rightarrow> all_zero bs)"
  by (simp add: scrypt_buf_after_def all_zero_def split: sum.splits)

lemma key_wiped_Seal:
  assumes "call_args Seal_allocs s pass message"
  shows "key_wiped s (snd (Seal L pass message s))"
proof -
  have sa: "base pass \<notin> Seal_allocs" "base message \<notin> Seal_allocs"
    using assms by (simp_all add: call_args_def)
  consider "length (Reader s) < saltSize"
    | "saltSize \<le> length (Reader s)" "length (Reader s) < saltSize + nonceSize"
    | "saltSize + nonceSize \<le> length (Reader s)"
    by linarith
  then show ?thesis
  proof cases
    case 1
    then show ?thesis
      by (simp add: Seal_fail_salt key_wiped_def derivations_def)
  next
    case 2
    then show ?thesis
      using scrypt_buf_after_cases[of L "load s pass" "take saltSize (Reader s)" "Iterations s" "store s ScryptBuf"]
      by (simp add: Seal_fail_nonce[OF 2 sa(1)] key_wiped_def derivations_def)
  next
    case 3
    then show ?thesis
      using scrypt_buf_after_cases[of L "load s pass" "take saltSize (Reader s)" "Iterations s" "store s ScryptBuf"]
      by (simp add: Seal_ok[OF 3 sa] key_wiped_def derivations_def)
  qed
qed

lemma key_wiped_Open:
  assumes "call_args Open_allocs s pass message"
  shows "key_wiped s (snd (Open L pass message s))"
proof (cases "len message < overhead")
  case True
  then show ?thesis
    by (simp add: Open_short key_wiped_def)
next
  case False
  then have big: "overhead \<le> len message"
    by simp
  have oa: "in_bounds s message" "base pass \<notin> Open_allocs" "base message \<notin> Open_allocs"
    using assms by (simp_all add: call_args_def)
  show ?thesis
    using scrypt_buf_after_cases[of L "load s pass" "take saltSize (load s message)" "Iterations s" "store s ScryptBuf"]
    unfolding Open_eq[OF big oa] Let_def
    by (simp add: key_wiped_def derivations_def split: option.splits)
qed

lemma caller_frame_Seal:
  assumes "call_args Seal_allocs s pass message"
  shows "caller_frame s (snd (Seal L pass message s)) pass message"
proof -
  have sa: "base pass \<notin> Seal_allocs" "base message \<notin> Seal_allocs"
    using assms by (simp_all add: call_args_def)
  then have b: "base pass \<noteq> SaltBuf" "base pass \<noteq> NonceBuf" "base pass \<noteq> OutBuf"
    "base pass \<noteq> BoxBuf" "base pass \<noteq> ScryptBuf" "base pass \<noteq> NaclKey" "base pass \<noteq> EnvBuf"
    "base message \<noteq> SaltBuf" "base message \<noteq> NonceBuf" "base message \<noteq> OutBuf"
    "base message \<noteq> BoxBuf" "base message \<noteq> ScryptBuf" "base message \<noteq> NaclKey"
    "base message \<noteq> EnvBuf"
    by (simp_all add: Seal_allocs_def)
  consider "length (Reader s) < saltSize"
    | "saltSize \<le> length (Reader s)" "length (Reader s) < saltSize + nonceSize"
    | "saltSize + nonceSize \<le> length (Reader s)"
    by linarith
  then show ?thesis
  proof cases
    case 1
    then show ?thesis
      using b by (simp add: Seal_fail_salt caller_frame_def load_bytes_of)
  next
    case 2
    then show ?thesis
      using b by (simp add: Seal_fail_nonce[OF 2 sa(1)] caller_frame_def load_bytes_of)
  next
    case 3
    then show ?thesis
      using b by (simp add: Seal_ok[OF 3 sa] caller_frame_def load_bytes_of)
  qed
qed

lemma caller_frame_Open:
  assumes "call_args Open_allocs s pass message"
  shows "caller_frame s (snd (Open L pass message s)) pass message"
proof (cases "len message < overhead")
  case True
  then show ?thesis
    by (simp add: Open_short caller_frame_def)
next
  case False
  then have big: "overhead \<le> len message"
    by simp
  have oa: "in_bounds s message" "base pass \<notin> Open_allocs" "base message \<notin> Open_allocs"
    using assms by (simp_all add: call_args_def)
  then have b: "base pass \<noteq> NonceBuf" "base pass \<noteq> ScryptBuf" "base pass \<noteq> NaclKey"
    "base pass \<noteq> PlainBuf" "base message \<noteq> NonceBuf" "base message \<noteq> ScryptBuf"
    "base message \<noteq> NaclKey" "base message \<noteq> PlainBuf"
    by (simp_all add: Open_allocs_def)
  show ?thesis
    using b unfolding Open_eq[OF big oa] Let_def
    by (simp add: caller_frame_def load_bytes_of split: option.splits)
qed

lemma store_at_calls [simp]: "calls (store_at dst bs s) = calls s"
  by (simp add: store_at_def Let_def split: option.splits)

subsection \<open>The log of external calls\<close>

text \<open>
  \<^verbatim>\<open>deriveKey\<close> logs one call of \<^verbatim>\<open>scrypt.Key\<close>. \<^verbatim>\<open>decrypt\<close> logs one call of
  \<^verbatim>\<open>secretbox.Open\<close>, unless it returns from its length check, and then it logs
  nothing.
\<close>

lemma Zero_calls: "calls (Zero b s) = calls s"
  by (simp add: Zero_def)

lemma deriveKey_calls:
  "\<exists>p sa. calls (snd (deriveKey L pass salt s)) = calls s @ [CallScryptKey p sa (Iterations s)]"
  by (simp add: deriveKey_def make_def scrypt_Key_call_def copy_def Let_def Zero_calls
      split: sum.splits)

lemma decrypt_calls:
  "calls (snd (decrypt L key m s)) =
     (if len m < nonceSize + secretbox_Overhead then calls s else calls s @ [CallBoxOpen])"
  by (auto simp: decrypt_def reslice_def make_def copy_def secretbox_Open_def Let_def
      split: option.splits)

subsection \<open>Passphrases that share a key\<close>

text \<open>
  Passphrases are byte strings of any length and keys have 32 bytes, so for every
  key derivation function, salt and cost two distinct passphrases derive the same key;
  under the contract of secretbox each of the two opens what the other sealed.
\<close>

lemma key_collision:
  "\<exists>p p'. p \<noteq> p' \<and> key_of L p sa N = key_of L p' sa N"
proof (rule ccontr)
  assume "\<not> ?thesis"
  then have "inj (\<lambda>p. key_of L p sa N)"
    by (auto simp: inj_on_def)
  moreover have "range (\<lambda>p. key_of L p sa N) \<subseteq> {k. set k \<subseteq> UNIV \<and> length k = keySize}"
    by auto
  then have "finite (range (\<lambda>p. key_of L p sa N))"
    using finite_lists_length_eq[of "UNIV :: byte set" keySize] by (meson finite_subset finite_class.finite_UNIV)
  ultimately have "finite (UNIV :: byte list set)"
    by (rule finite_imageD[rotated])
  then show False
    using infinite_UNIV_listI by blast
qed

lemma collision_opens:
  assumes "secretbox_contract L" "length n = nonceSize"
  shows "\<exists>p p'. p \<noteq> p' \<and>
           box_open L (box_seal L m n (key_of L p sa N)) n (key_of L p' sa N) = Some m"
proof -
  obtain p p' where "p \<noteq> p'" "key_of L p sa N = key_of L p' sa N"
    using key_collision by blast
  moreover have "box_open L (box_seal L m n (key_of L p' sa N)) n (key_of L p' sa N) = Some m"
    using assms by (simp add: secretbox_contract_def)
  ultimately show ?thesis
    by metis
qed

subsection \<open>The small instance\<close>

lemma stub_contract: "secretbox_contract stub"
  by (simp add: secretbox_contract_def stub_def stub_seal_def stub_open_def stub_tag_def
      keySize_def secretbox_Overhead_def)

lemma s0_args:
  "call_args Seal_allocs s0 pass_a msg0" "call_args Open_allocs s0 pass_a msg0"
  "call_args Seal_allocs s0 pass_b msg0" "call_args Seal_allocs s0 pass_c msg0"
  by (simp_all add: call_args_def in_bounds_def s0_def pass_a_def pass_b_def pass_c_def msg0_def
      Seal_allocs_def Open_allocs_def)

lemma s0_Reader: "saltSize + nonceSize \<le> length (Reader s0)"
  by (simp add: s0_def saltSize_def nonceSize_def)

lemma s0_load:
  "load s0 pass_a = [1, 2]" "load s0 pass_b = [3]" "load s0 pass_c = [9]" "load s0 msg0 = [7, 8, 9]"
  "load s0 nil = []"
  by (simp_all add: load_def s0_def pass_a_def pass_b_def pass_c_def msg0_def nil_def)

lemma Seal_s0:
  "call_args Seal_allocs s0 pass message \<Longrightarrow> \<exists>env s1. Seal L pass message s0 = (Inr env, s1)"
  using Seal_ok[OF s0_Reader, of pass message L] by (simp add: call_args_def)





lemma s0_args_nil:
  "call_args Seal_allocs s0 pass_a nil" "call_args Open_allocs s0 pass_a nil"
  by (simp_all add: call_args_def in_bounds_def s0_def pass_a_def nil_def
      Seal_allocs_def Open_allocs_def)

section \<open>The claims\<close>

text \<open>
  C1. For every passphrase and every plaintext, the empty one included, opening a
  sealed envelope with the same passphrase returns the plaintext, whenever \<^verbatim>\<open>Seal\<close>
  succeeded. \<^verbatim>\<open>Open\<close> may run in the state \<^verbatim>\<open>Seal\<close> left or in any other state
  (another process) that holds the same passphrase bytes and envelope bytes and the
  same value of \<^verbatim>\<open>Iterations\<close>; secretbox is assumed to meet its contract.
\<close>

theorem Seal_Open_round_trip:
  assumes "secretbox_contract L"
    and "call_args Seal_allocs s pass message"
    and "Seal L pass message s = (Inr env, s1)"
    and "call_args Open_allocs t pass' env'"
    and "load t pass' = load s pass" "load t env' = load s1 env" "Iterations t = Iterations s"
  shows "\<exists>out t'. Open L pass' env' t = (Inr out, t') \<and> load t' out = load s message"
  using assms(1-4,6,7) by (rule Seal_Open_same_key) (simp add: assms(5))

theorem Seal_Open_round_trip_witness:
  "(\<exists>env s1 out s2. Seal stub pass_a msg0 s0 = (Inr env, s1) \<and>
      Open stub pass_a env s1 = (Inr out, s2) \<and> load s2 out = [7, 8, 9]) \<and>
   (\<exists>env s1 out s2. Seal stub pass_a nil s0 = (Inr env, s1) \<and>
      Open stub pass_a env s1 = (Inr out, s2) \<and> load s2 out = [])"
proof -
  have run: "\<exists>env s1 out s2. Seal stub pass_a m s0 = (Inr env, s1) \<and>
      Open stub pass_a env s1 = (Inr out, s2) \<and> load s2 out = load s0 m"
    if m: "call_args Seal_allocs s0 pass_a m" "call_args Open_allocs s0 pass_a m" for m
  proof -
    obtain env s1 where S: "Seal stub pass_a m s0 = (Inr env, s1)"
      using Seal_s0[OF m(1)] by blast
    note a = Seal_then_Open_args[OF m(1) S m(1) m(2)]
    obtain out s2 where "Open stub pass_a env s1 = (Inr out, s2)" "load s2 out = load s0 m"
      using Seal_Open_round_trip[OF stub_contract m(1) S a(1) a(2) refl a(3)] by blast
    then show ?thesis
      using S by simp
  qed
  show ?thesis
    using run[OF s0_args(1,2)] run[OF s0_args_nil] by (simp add: s0_load)
qed




text \<open>
  C3. \<^verbatim>\<open>Zero(buf)\<close> leaves every byte of \<open>buf\<close> zero, and on every exit path of
  \<^verbatim>\<open>Seal\<close> and of \<^verbatim>\<open>Open\<close>, success or failure, the derived key array is all zero
  when the call returns: no path returns with derived key bytes in it.
\<close>

theorem key_erased_on_every_path:
  "(in_bounds s b \<longrightarrow> load (Zero b s) b = replicate (len b) 0) \<and>
   (call_args Seal_allocs s pass message \<longrightarrow> key_wiped s (snd (Seal L pass message s))) \<and>
   (call_args Open_allocs s pass message \<longrightarrow> key_wiped s (snd (Open L pass message s)))"
  using Zero_load key_wiped_Seal key_wiped_Open by blast

theorem key_erased_witness:
  "load (Zero pass_a s0) pass_a = replicate (len pass_a) 0 \<and>
   key_wiped s0 (snd (Seal stub pass_a msg0 s0)) \<and>
   store (snd (Seal stub pass_a msg0 s0)) NaclKey = Some (replicate keySize 0) \<and>
   fst (Seal stub pass_a msg0 (s0\<lparr>Reader := replicate 40 5\<rparr>)) = Inl ErrEncrypt \<and>
   store (snd (Seal stub pass_a msg0 (s0\<lparr>Reader := replicate 40 5\<rparr>))) NaclKey
     = Some (replicate keySize 0) \<and>
   key_wiped s0 (snd (Open stub pass_a msg0 s0))"
proof -
  have "in_bounds s0 pass_a"
    using s0_args(1) by (simp add: call_args_def)
  moreover have "store (snd (Seal stub pass_a msg0 s0)) NaclKey = Some (replicate keySize 0)"
    using s0_args(1) by (simp add: Seal_ok[OF s0_Reader] call_args_def)
  moreover have "saltSize \<le> length (Reader (s0\<lparr>Reader := replicate 40 5\<rparr>))"
    "length (Reader (s0\<lparr>Reader := replicate 40 5\<rparr>)) < saltSize + nonceSize"
    by (simp_all add: saltSize_def nonceSize_def)
  then have "fst (Seal stub pass_a msg0 (s0\<lparr>Reader := replicate 40 5\<rparr>)) = Inl ErrEncrypt"
    "store (snd (Seal stub pass_a msg0 (s0\<lparr>Reader := replicate 40 5\<rparr>))) NaclKey
       = Some (replicate keySize 0)"
    using s0_args(1) by (simp_all add: Seal_fail_nonce call_args_def)
  ultimately show ?thesis
    using key_erased_on_every_path[of s0 pass_a pass_a msg0 stub] s0_args(1,2) by simp
qed

text \<open>
  C4. For every passphrase and every plaintext, a successful \<^verbatim>\<open>Seal\<close> returns an
  envelope of length \<open>len(M) + 72\<close>, where 72 is the constant \<open>overhead\<close>: salt size 32
  plus nonce size 24 plus tag size 16. The theorem gives the length of the returned
  slice and of the bytes it denotes.
\<close>

theorem Seal_length:
  assumes "secretbox_contract L" "call_args Seal_allocs s pass message"
    and "Seal L pass message s = (Inr env, s')"
  shows "len env = len message + 72 \<and> length (load s' env) = length (load s message) + 72
         \<and> overhead = 72"
proof -
  have args: "base pass \<notin> Seal_allocs" "base message \<notin> Seal_allocs" "in_bounds s message"
    using assms(2) by (simp_all add: call_args_def)
  have R: "saltSize + nonceSize \<le> length (Reader s)"
    using assms(3) args(1) by (rule Seal_Inr_Reader)
  have o: "overhead = 72"
    by (simp add: overhead_def saltSize_def nonceSize_def secretbox_Overhead_def)
  show ?thesis
    using Seal_Inr(1,2)[OF assms(3) args(1,2)] length_sealed[OF assms(1) R, of "load s pass" "load s message" "Iterations s"]
      length_load[OF args(3)] o by simp
qed

theorem Seal_length_witness:
  "\<exists>env s'. Seal stub pass_a msg0 s0 = (Inr env, s') \<and> len env = 75 \<and> length (load s' env) = 75"
proof -
  obtain env s' where S: "Seal stub pass_a msg0 s0 = (Inr env, s')"
    using Seal_s0[OF s0_args(1)] by blast
  have "len env = len msg0 + 72 \<and> length (load s' env) = length (load s0 msg0) + 72 \<and> overhead = 72"
    using stub_contract s0_args(1) S by (rule Seal_length)
  moreover have "len msg0 = 3"
    by (simp add: msg0_def)
  ultimately show ?thesis
    using S by (simp add: s0_load)
qed

text \<open>
  C5. For every passphrase and every input shorter than the overhead of 72 bytes,
  \<^verbatim>\<open>Open\<close> fails at once with \<^verbatim>\<open>ErrDecrypt\<close> and does not derive a key: it returns
  in the state it started in, so nothing was allocated and no external call was made.
  (From 72 bytes on a key is derived: \<open>Open_long_derives\<close>.)
\<close>

theorem Open_too_short:
  assumes "len message < 72"
  shows "Open L pass message s = (Inl ErrDecrypt, s) \<and>
         derivations (snd (Open L pass message s)) = derivations s \<and> overhead = 72"
  using assms by (simp add: Open_def overhead_def saltSize_def nonceSize_def secretbox_Overhead_def)

theorem Open_too_short_witness:
  "Open stub pass_a msg0 s0 = (Inl ErrDecrypt, s0)"
  using Open_too_short[of msg0 stub pass_a s0] by (simp add: msg0_def)

text \<open>
  C6. Every failure of \<^verbatim>\<open>Open\<close>, whatever its cause, is the one value
  \<^verbatim>\<open>ErrDecrypt\<close>, a constant without payload: \<^verbatim>\<open>Open\<close> returns \<^verbatim>\<open>ErrDecrypt\<close> or a
  plaintext, never another error and never a panic of its slice expressions.
\<close>

theorem Open_only_ErrDecrypt:
  "fst (Open L pass message s) = Inl ErrDecrypt \<or> (\<exists>out. fst (Open L pass message s) = Inr out)"
  by (auto simp: Open_def reslice_def overhead_def Let_def split: prod.splits sum.splits)

theorem Open_only_ErrDecrypt_witness:
  "fst (Open stub pass_a msg0 s0) = Inl ErrDecrypt \<or>
   (\<exists>out. fst (Open stub pass_a msg0 s0) = Inr out)"
  by (rule Open_only_ErrDecrypt)

text \<open>
  C7. For every key and plaintext, \<^verbatim>\<open>encrypt\<close> returns the freshly generated nonce
  followed by a ciphertext of length \<open>len(plaintext) + secretbox.Overhead\<close>: the nonce
  is prepended to the returned buffer, which is therefore 24 bytes longer than the
  ciphertext. When the random source cannot supply the nonce, \<^verbatim>\<open>encrypt\<close> returns
  \<^verbatim>\<open>ErrEncrypt\<close>.
\<close>

theorem encrypt_nonce_then_box:
  assumes "secretbox_contract L" "length (load s key) = keySize"
    and "base key \<noteq> NonceBuf" "base key \<noteq> OutBuf"
    and "base message \<noteq> NonceBuf" "base message \<noteq> OutBuf"
  shows "(nonceSize \<le> length (Reader s) \<longrightarrow>
           (\<exists>out s'. encrypt L key message s = (Inr out, s') \<and>
              store s' NonceBuf = Some (take nonceSize (Reader s)) \<and>
              take nonceSize (load s' out) = take nonceSize (Reader s) \<and>
              length (drop nonceSize (load s' out)) = length (load s message) + secretbox_Overhead \<and>
              length (load s' out) = length (load s message) + secretbox_Overhead + nonceSize)) \<and>
         (length (Reader s) < nonceSize \<longrightarrow> fst (encrypt L key message s) = Inl ErrEncrypt)"
proof (intro conjI impI)
  assume R: "nonceSize \<le> length (Reader s)"
  have n: "length (take nonceSize (Reader s)) = nonceSize"
    using R by simp
  have "length (box_seal L (load s message) (take nonceSize (Reader s)) (load s key)) =
        length (load s message) + secretbox_Overhead"
    using assms(1,2) n by (simp add: secretbox_contract_def)
  then show "\<exists>out s'. encrypt L key message s = (Inr out, s') \<and>
              store s' NonceBuf = Some (take nonceSize (Reader s)) \<and>
              take nonceSize (load s' out) = take nonceSize (Reader s) \<and>
              length (drop nonceSize (load s' out)) = length (load s message) + secretbox_Overhead \<and>
              length (load s' out) = length (load s message) + secretbox_Overhead + nonceSize"
    using n by (simp add: encrypt_ok[OF R assms(3-6)] load_bytes_of)
next
  assume "length (Reader s) < nonceSize"
  then show "fst (encrypt L key message s) = Inl ErrEncrypt"
    by (simp add: encrypt_fail)
qed

theorem encrypt_nonce_then_box_witness:
  "\<exists>out s'. encrypt stub key0 msg0 s0 = (Inr out, s') \<and>
     take nonceSize (load s' out) = replicate 24 5 \<and> length (load s' out) = 43"
proof -
  have k: "length (load s0 key0) = keySize" "base key0 \<noteq> NonceBuf" "base key0 \<noteq> OutBuf"
    "base msg0 \<noteq> NonceBuf" "base msg0 \<noteq> OutBuf"
    by (simp_all add: load_def s0_def key0_def msg0_def keySize_def)
  have R: "nonceSize \<le> length (Reader s0)" "take nonceSize (Reader s0) = replicate 24 5"
    by (simp_all add: s0_def nonceSize_def)
  show ?thesis
    using encrypt_nonce_then_box[OF stub_contract k, of] R
    by (auto simp: s0_load secretbox_Overhead_def nonceSize_def)
qed

text \<open>
  C8. Key derivation is deterministic: two calls of \<^verbatim>\<open>deriveKey\<close> with the same
  passphrase bytes, the same salt bytes and the same value of \<^verbatim>\<open>Iterations\<close> return
  the same key of 32 bytes, whatever else the two states hold.
\<close>

theorem deriveKey_deterministic:
  assumes "base pass \<noteq> NaclKey" "base salt \<noteq> NaclKey"
    and "base pass' \<noteq> NaclKey" "base salt' \<noteq> NaclKey"
    and "load s pass = load t pass'" "load s salt = load t salt'" "Iterations s = Iterations t"
  shows "load (snd (deriveKey L pass salt s)) (fst (deriveKey L pass salt s)) =
         load (snd (deriveKey L pass' salt' t)) (fst (deriveKey L pass' salt' t)) \<and>
         length (load (snd (deriveKey L pass salt s)) (fst (deriveKey L pass salt s))) = keySize"
  using assms by (simp add: deriveKey_eq load_bytes_of)

theorem deriveKey_deterministic_witness:
  "load (snd (deriveKey stub pass_a key0 s0)) (fst (deriveKey stub pass_a key0 s0)) =
   load (snd (deriveKey stub pass_a key0 (s0\<lparr>Reader := []\<rparr>)))
        (fst (deriveKey stub pass_a key0 (s0\<lparr>Reader := []\<rparr>)))"
proof -
  have "base pass_a \<noteq> NaclKey" "base key0 \<noteq> NaclKey"
    by (simp_all add: pass_a_def key0_def)
  moreover have "load s0 pass_a = load (s0\<lparr>Reader := []\<rparr>) pass_a"
    "load s0 key0 = load (s0\<lparr>Reader := []\<rparr>) key0"
    "Iterations s0 = Iterations (s0\<lparr>Reader := []\<rparr>)"
    by (simp_all add: load_def)
  ultimately show ?thesis
    using deriveKey_deterministic[of pass_a key0 pass_a key0 s0 "s0\<lparr>Reader := []\<rparr>" stub] by blast
qed

text \<open>
  C9. \<^verbatim>\<open>Seal\<close> and \<^verbatim>\<open>Open\<close> leave the caller's buffers as they were: the bytes of
  the passphrase and of the message or envelope, and every array of the caller, are
  the same at return as at the call. The writes of \<^verbatim>\<open>Zero\<close> reach only arrays that
  the call allocated itself.
\<close>

theorem caller_buffers_unchanged:
  "(call_args Seal_allocs s pass message \<longrightarrow>
      caller_frame s (snd (Seal L pass message s)) pass message) \<and>
   (call_args Open_allocs s pass message \<longrightarrow>
      caller_frame s (snd (Open L pass message s)) pass message)"
  using caller_frame_Seal caller_frame_Open by blast

theorem caller_buffers_unchanged_witness:
  "caller_frame s0 (snd (Seal stub pass_a msg0 s0)) pass_a msg0 \<and>
   caller_frame s0 (snd (Open stub pass_a msg0 s0)) pass_a msg0"
  using caller_buffers_unchanged[of s0 pass_a msg0 stub] s0_args(1,2) by simp

text \<open>
  C10. No call of \<^verbatim>\<open>Open\<close> ends at the length check at the top of \<^verbatim>\<open>decrypt\<close>.
  \<^verbatim>\<open>decrypt\<close> returns from that check exactly when it logs no external call (first
  part). \<^verbatim>\<open>Open\<close> either returns from its own guard, \<open>len(message) < 72\<close>, having
  called nothing, or its guard passes, it derives the key and the call of
  \<^verbatim>\<open>decrypt\<close> that follows reaches \<^verbatim>\<open>secretbox.Open\<close> (second part): a run that
  derives a key and then stops at the check of \<^verbatim>\<open>decrypt\<close> does not exist. The
  slice \<^verbatim>\<open>decrypt\<close> is called on, \<^verbatim>\<open>message[saltSize:]\<close>, exists and has at least
  \<open>nonceSize + secretbox.Overhead\<close> bytes (third part).
\<close>

theorem Open_passes_decrypt_length_check:
  "(\<forall>key m t. (calls (snd (decrypt L key m t)) = calls t) =
      (len m < nonceSize + secretbox_Overhead)) \<and>
   (\<exists>p sa. calls (snd (Open L pass message s)) =
      (if len message < overhead then calls s
       else calls s @ [CallScryptKey p sa (Iterations s), CallBoxOpen])) \<and>
   (overhead \<le> len message \<longrightarrow>
      (\<exists>rest. reslice message saltSize (len message) = Inr rest \<and>
         \<not> len rest < nonceSize + secretbox_Overhead))"
proof (intro conjI allI impI)
  show "(calls (snd (decrypt L key m t)) = calls t) = (len m < nonceSize + secretbox_Overhead)"
    for key m t
    by (simp add: decrypt_calls)
next
  show "\<exists>p sa. calls (snd (Open L pass message s)) =
      (if len message < overhead then calls s
       else calls s @ [CallScryptKey p sa (Iterations s), CallBoxOpen])"
  proof (cases "len message < overhead")
    case True
    then show ?thesis
      by (simp add: Open_def)
  next
    case False
    then have big: "saltSize + nonceSize + secretbox_Overhead \<le> len message"
      by (simp add: overhead_def)
    let ?salt = "\<lparr>base = base message, off = off message + 0, len = saltSize - 0\<rparr>"
    let ?rest = "\<lparr>base = base message, off = off message + saltSize, len = len message - saltSize\<rparr>"
    have r1: "reslice message 0 saltSize = Inr ?salt"
      and r2: "reslice message saltSize (len message) = Inr ?rest"
      using big by (simp_all add: reslice_def)
    obtain key s1 where dk: "deriveKey L pass ?salt s = (key, s1)"
      by (cases "deriveKey L pass ?salt s")
    obtain p sa where c1: "calls s1 = calls s @ [CallScryptKey p sa (Iterations s)]"
      using deriveKey_calls[of L pass ?salt s] dk by auto
    obtain res s2 where de: "decrypt L key ?rest s1 = (res, s2)"
      by (cases "decrypt L key ?rest s1")
    have "\<not> len ?rest < nonceSize + secretbox_Overhead"
      using big by simp
    then have c2: "calls s2 = calls s1 @ [CallBoxOpen]"
      using decrypt_calls[of L key ?rest s1] de by simp
    have "Open L pass message s =
        (case res of Inl e \<Rightarrow> (Inl ErrDecrypt, Zero key s2) | Inr out \<Rightarrow> (Inr out, Zero key s2))"
      using False by (simp only: Open_def if_False r1 r2 sum.case dk de Let_def prod.case)
    then have "calls (snd (Open L pass message s)) = calls s2"
      by (simp add: Zero_calls split: sum.splits)
    then show ?thesis
      using False c1 c2 by auto
  qed
next
  assume "overhead \<le> len message"
  then have big: "saltSize + nonceSize + secretbox_Overhead \<le> len message"
    by (simp add: overhead_def)
  then have "reslice message saltSize (len message) =
      Inr \<lparr>base = base message, off = off message + saltSize, len = len message - saltSize\<rparr>"
    by (simp add: reslice_def)
  with big show "\<exists>rest. reslice message saltSize (len message) = Inr rest \<and>
         \<not> len rest < nonceSize + secretbox_Overhead"
    by simp
qed

theorem Open_passes_decrypt_length_check_witness:
  "(\<exists>p sa. calls (snd (Open stub pass_a \<lparr>base = Caller 5, off = 0, len = 72\<rparr> s0)) =
      [CallScryptKey p sa IterationsHigh, CallBoxOpen]) \<and>
   (\<exists>rest. reslice \<lparr>base = Caller 5, off = 0, len = 72\<rparr> saltSize 72 = Inr rest \<and>
      \<not> len rest < nonceSize + secretbox_Overhead) \<and>
   calls (snd (Open stub pass_a msg0 s0)) = []"
proof -
  have a: "\<not> len \<lparr>base = Caller 5, off = 0, len = 72\<rparr> < overhead"
    "overhead \<le> len \<lparr>base = Caller 5, off = 0, len = 72\<rparr>" "len msg0 < overhead"
    "calls s0 = []" "Iterations s0 = IterationsHigh"
    by (simp_all add: overhead_def saltSize_def nonceSize_def secretbox_Overhead_def msg0_def s0_def)
  show ?thesis
    using Open_passes_decrypt_length_check[of stub pass_a "\<lparr>base = Caller 5, off = 0, len = 72\<rparr>" s0]
      Open_passes_decrypt_length_check[of stub pass_a msg0 s0] a
    by simp
qed

end
